theory Spec2Isabelle
  imports Main
begin

section \<open>Bytes, runes and UTF-8 decoding\<close>

text \<open>
  A Go \<open>string\<close> and a Go \<open>[]byte\<close> are sequences of bytes; both are modelled by
  \<^typ>\<open>string\<close>, whose characters are exactly the 256 byte values.  A \<open>rune\<close> is a
  code point, modelled by \<^typ>\<open>nat\<close>.
\<close>

definition byte :: "char \<Rightarrow> nat" where
  "byte c = of_char c"

definition RuneError :: nat where
  "RuneError = 0xFFFD"

definition RuneSelf :: nat where
  "RuneSelf = 0x80"

text \<open>
  \<open>utf8.DecodeRuneInString\<close> of the Go standard library, which the escaping code
  calls.  \<open>first\<close> is the library's table of the same name (\<open>as = 0xF0\<close> for ASCII,
  \<open>xx = 0xF1\<close> for an invalid first byte, otherwise the size in the low three bits and
  the index of the accept range in the high four), \<open>acceptRanges\<close> the allowed
  range of the second byte.  The masks \<open>b & 0x1F\<close>, \<open>b & 0x0F\<close>, \<open>b & 0x07\<close> and
  \<open>b & 0x3F\<close> are \<open>mod 32\<close>, \<open>mod 16\<close>, \<open>mod 8\<close> and \<open>mod 64\<close>; the shifts are
  multiplications and the bitwise or of disjoint bit ranges is a sum.
\<close>

definition first :: "nat \<Rightarrow> nat" where
  "first b =
     (if b < 0x80 then 0xF0
      else if b < 0xC2 then 0xF1
      else if b < 0xE0 then 0x02
      else if b = 0xE0 then 0x13
      else if b < 0xED then 0x03
      else if b = 0xED then 0x23
      else if b < 0xF0 then 0x03
      else if b = 0xF0 then 0x34
      else if b < 0xF4 then 0x04
      else if b = 0xF4 then 0x44
      else 0xF1)"

definition acceptRanges :: "(nat \<times> nat) list" where
  "acceptRanges = [(0x80, 0xBF), (0xA0, 0xBF), (0x80, 0x9F), (0x90, 0xBF), (0x80, 0x8F)]"

definition decodeRuneInString :: "string \<Rightarrow> nat \<times> nat" where
  "decodeRuneInString s =
     (let n = length s in
      if n < 1 then (RuneError, 0)
      else
        let s0 = byte (s ! 0); x = first s0 in
        if x \<ge> 0xF0 then ((if odd x then RuneError else s0), 1)
        else
          let sz = x mod 8; lo = fst (acceptRanges ! (x div 16)); hi = snd (acceptRanges ! (x div 16)) in
          if n < sz then (RuneError, 1)
          else
            let s1 = byte (s ! 1) in
            if s1 < lo \<or> hi < s1 then (RuneError, 1)
            else if sz \<le> 2 then ((s0 mod 32) * 64 + s1 mod 64, 2)
            else
              let s2 = byte (s ! 2) in
              if s2 < 0x80 \<or> 0xBF < s2 then (RuneError, 1)
              else if sz \<le> 3 then ((s0 mod 16) * 4096 + (s1 mod 64) * 64 + s2 mod 64, 3)
              else
                let s3 = byte (s ! 3) in
                if s3 < 0x80 \<or> 0xBF < s3 then (RuneError, 1)
                else ((s0 mod 8) * 262144 + (s1 mod 64) * 4096 + (s2 mod 64) * 64 + s3 mod 64, 4))"

text \<open>
  \<open>utf8.ValidString\<close>: no position at which decoding fails, walking the string the way
  every loop of the package does.
\<close>

function validString :: "string \<Rightarrow> bool" where
  "validString s =
     (if s = [] then True
      else if fst (decodeRuneInString s) = RuneError \<and> snd (decodeRuneInString s) = 1 then False
      else validString (drop (snd (decodeRuneInString s)) s))"
  by pat_completeness auto
termination
proof (relation "measure length")
  fix s :: string
  assume "s \<noteq> []"
  then have "0 < snd (decodeRuneInString s)"
    by (simp add: decodeRuneInString_def Let_def)
  with \<open>s \<noteq> []\<close> show "(drop (snd (decodeRuneInString s)) s, s) \<in> measure length"
    by simp
qed simp

section \<open>The safe set and the quoting predicate\<close>

text \<open>
  \<open>safeSet\<close> is the table of 128 booleans of the source, a composite literal keyed by
  character: \<open>safeSetEntries\<close> lists its keys and values in the source's order (the
  double quote is \<open>CHR 0x22\<close>, the backslash \<open>CHR 0x5C\<close>); an index that is not a
  key, that is every byte from 0 to 31, holds false.
\<close>

definition safeSetEntries :: "(char \<times> bool) list" where
  "safeSetEntries =
    [(CHR '' '', True), (CHR ''!'', True), (CHR 0x22, False), (CHR ''#'', True),
     (CHR ''$'', True), (CHR ''%'', True), (CHR ''&'', True), (CHR 0x27, True),
     (CHR ''('', True), (CHR '')'', True), (CHR ''*'', True), (CHR ''+'', True),
     (CHR '','', True), (CHR ''-'', True), (CHR ''.'', True), (CHR ''/'', True),
     (CHR ''0'', True), (CHR ''1'', True), (CHR ''2'', True), (CHR ''3'', True),
     (CHR ''4'', True), (CHR ''5'', True), (CHR ''6'', True), (CHR ''7'', True),
     (CHR ''8'', True), (CHR ''9'', True), (CHR '':'', True), (CHR '';'', True),
     (CHR ''<'', True), (CHR ''='', True), (CHR ''>'', True), (CHR ''?'', True),
     (CHR ''@'', True), (CHR ''A'', True), (CHR ''B'', True), (CHR ''C'', True),
     (CHR ''D'', True), (CHR ''E'', True), (CHR ''F'', True), (CHR ''G'', True),
     (CHR ''H'', True), (CHR ''I'', True), (CHR ''J'', True), (CHR ''K'', True),
     (CHR ''L'', True), (CHR ''M'', True), (CHR ''N'', True), (CHR ''O'', True),
     (CHR ''P'', True), (CHR ''Q'', True), (CHR ''R'', True), (CHR ''S'', True),
     (CHR ''T'', True), (CHR ''U'', True), (CHR ''V'', True), (CHR ''W'', True),
     (CHR ''X'', True), (CHR ''Y'', True), (CHR ''Z'', True), (CHR ''['', True),
     (CHR 0x5C, False), (CHR '']'', True), (CHR ''^'', True), (CHR ''_'', True),
     (CHR ''`'', True), (CHR ''a'', True), (CHR ''b'', True), (CHR ''c'', True),
     (CHR ''d'', True), (CHR ''e'', True), (CHR ''f'', True), (CHR ''g'', True),
     (CHR ''h'', True), (CHR ''i'', True), (CHR ''j'', True), (CHR ''k'', True),
     (CHR ''l'', True), (CHR ''m'', True), (CHR ''n'', True), (CHR ''o'', True),
     (CHR ''p'', True), (CHR ''q'', True), (CHR ''r'', True), (CHR ''s'', True),
     (CHR ''t'', True), (CHR ''u'', True), (CHR ''v'', True), (CHR ''w'', True),
     (CHR ''x'', True), (CHR ''y'', True), (CHR ''z'', True), (CHR ''{'', True),
     (CHR ''|'', True), (CHR ''}'', True), (CHR ''~'', True), (CHR 0x7F, True)]"

definition safeSet :: "bool list" where
  "safeSet =
     map (\<lambda>i. case map_of safeSetEntries (char_of i) of Some v \<Rightarrow> v | None \<Rightarrow> False) [0..<128]"

text \<open>
  \<open>unicode.IsSpace\<close> and \<open>unicode.IsPrint\<close> are tables of the standard library; the
  quoting predicate takes them as parameters.
\<close>

function needsQuoting_loop :: "(nat \<Rightarrow> bool) \<Rightarrow> (nat \<Rightarrow> bool) \<Rightarrow> string \<Rightarrow> nat \<Rightarrow> bool" where
  "needsQuoting_loop isSpace isPrint s i =
     (if i < length s then
        (let b = byte (s ! i) in
         if b < RuneSelf then
           (if s ! i \<noteq> CHR 0x5C \<and> (s ! i = CHR '' '' \<or> s ! i = CHR ''='' \<or> \<not> safeSet ! b) then True
            else needsQuoting_loop isSpace isPrint s (i + 1))
         else
           (let r = fst (decodeRuneInString (drop i s)); size = snd (decodeRuneInString (drop i s)) in
            if r = RuneError \<or> isSpace r \<or> \<not> isPrint r then True
            else needsQuoting_loop isSpace isPrint s (i + size)))
      else False)"
  by pat_completeness auto
termination
proof (relation "measure (\<lambda>(isSpace, isPrint, s, i). length s - i)")
  fix s :: string and i r size :: nat
  assume "i < length s" and "size = snd (decodeRuneInString (drop i s))"
  then have "0 < size"
    by (simp add: decodeRuneInString_def Let_def)
  with \<open>i < length s\<close>
  show "((isSpace, isPrint, s, i + size), (isSpace, isPrint, s, i))
          \<in> measure (\<lambda>(isSpace, isPrint, s, i). length s - i)"
    for isSpace isPrint :: "nat \<Rightarrow> bool"
    by simp
qed auto

definition needsQuoting :: "(nat \<Rightarrow> bool) \<Rightarrow> (nat \<Rightarrow> bool) \<Rightarrow> string \<Rightarrow> bool" where
  "needsQuoting isSpace isPrint s =
     (if length s = 0 then True else needsQuoting_loop isSpace isPrint s 0)"

section \<open>JSON string escaping\<close>

definition hex :: string where
  "hex = ''0123456789abcdef''"

text \<open>
  \<open>appendEscapedJSONString\<close>: the loop over the index \<open>i\<close>, with \<open>start\<close> the beginning of
  the pending run of bytes that are copied unchanged.  \<open>s[start:i]\<close> is
  \<open>take (i - start) (drop start s)\<close>, and \<open>CHR 0x5C\<close> is the backslash, \<open>CHR 0x22\<close> the
  double quote.
\<close>

function appendEscapedJSONString_loop :: "string \<Rightarrow> string \<Rightarrow> nat \<Rightarrow> nat \<Rightarrow> string" where
  "appendEscapedJSONString_loop buf s start i =
     (if i < length s then
        (let b = s ! i in
         if byte b < RuneSelf then
           (if safeSet ! byte b then appendEscapedJSONString_loop buf s start (i + 1)
            else
              (let buf1 = (if start < i then buf @ take (i - start) (drop start s) else buf);
                   buf2 = buf1 @ [CHR 0x5C];
                   buf3 = (if b = CHR 0x5C \<or> b = CHR 0x22 then buf2 @ [b]
                           else if b = CHR 0x0A then buf2 @ ''n''
                           else if b = CHR 0x0D then buf2 @ ''r''
                           else if b = CHR 0x09 then buf2 @ ''t''
                           else buf2 @ ''u00'' @ [hex ! (byte b div 16)] @ [hex ! (byte b mod 16)])
               in appendEscapedJSONString_loop buf3 s (i + 1) (i + 1)))
         else
           (let c = fst (decodeRuneInString (drop i s)); size = snd (decodeRuneInString (drop i s)) in
            if c = RuneError \<and> size = 1 then
              (let buf1 = (if start < i then buf @ take (i - start) (drop start s) else buf);
                   buf2 = buf1 @ [CHR 0x5C] @ ''ufffd''
               in appendEscapedJSONString_loop buf2 s (i + size) (i + size))
            else if c = 0x2028 \<or> c = 0x2029 then
              (let buf1 = (if start < i then buf @ take (i - start) (drop start s) else buf);
                   buf2 = buf1 @ [CHR 0x5C] @ ''u202'' @ [hex ! (c mod 16)]
               in appendEscapedJSONString_loop buf2 s (i + size) (i + size))
            else appendEscapedJSONString_loop buf s start (i + size)))
      else (if start < length s then buf @ drop start s else buf))"
  by pat_completeness auto
termination
proof -
  have pos: "i < length s \<Longrightarrow> 0 < snd (decodeRuneInString (drop i s))" for s :: string and i
    by (simp add: decodeRuneInString_def Let_def)
  show ?thesis
    by (relation "measure (\<lambda>(buf, s, start, i). length s - i)")
      (auto intro!: diff_less_mono2 dest: pos)
qed

definition appendEscapedJSONString :: "string \<Rightarrow> string \<Rightarrow> string" where
  "appendEscapedJSONString buf s = appendEscapedJSONString_loop buf s 0 0"

subsection \<open>What the escaping is compared with\<close>

text \<open>
  The escaping rule in the specification's words, rune by rune: a safe ASCII byte stays;
  a double quote or backslash gets a backslash; newline, carriage return and tab get
  their short forms and every other byte below 0x20 becomes backslash, \<open>u00\<close> and two
  hexadecimal digits; a byte at which decoding fails becomes the six characters
  backslash, \<open>ufffd\<close>; the line and paragraph separators become backslash, \<open>u2028\<close>
  and backslash, \<open>u2029\<close>; every other rune keeps its bytes.
\<close>

definition escapeByte :: "char \<Rightarrow> string" where
  "escapeByte b =
     (if safeSet ! byte b then [b]
      else if b = CHR 0x5C \<or> b = CHR 0x22 then [CHR 0x5C, b]
      else if b = CHR 0x0A then CHR 0x5C # ''n''
      else if b = CHR 0x0D then CHR 0x5C # ''r''
      else if b = CHR 0x09 then CHR 0x5C # ''t''
      else CHR 0x5C # ''u00'' @ [hex ! (byte b div 16), hex ! (byte b mod 16)])"

function escapeRunes :: "string \<Rightarrow> string" where
  "escapeRunes s =
     (if s = [] then []
      else if byte (hd s) < RuneSelf then escapeByte (hd s) @ escapeRunes (tl s)
      else
        (let c = fst (decodeRuneInString s); size = snd (decodeRuneInString s) in
         (if c = RuneError \<and> size = 1 then CHR 0x5C # ''ufffd''
          else if c = 0x2028 then CHR 0x5C # ''u2028''
          else if c = 0x2029 then CHR 0x5C # ''u2029''
          else take size s)
         @ escapeRunes (drop size s)))"
  by pat_completeness auto
termination
proof (relation "measure length")
  fix s :: string and size :: nat
  assume "s \<noteq> []" and "size = snd (decodeRuneInString s)"
  then have "0 < size"
    by (simp add: decodeRuneInString_def Let_def)
  with \<open>s \<noteq> []\<close> show "(drop size s, s) \<in> measure length"
    by simp
qed auto

text \<open>
  Standard unescaping of the contents of a JSON string (RFC 8259): the two-character
  escapes, \<open>\uXXXX\<close> with four hexadecimal digits of either case, a surrogate pair of two
  such escapes, and every other byte copied; an unescaped double quote or control byte
  and an unknown or truncated escape are errors.  \<open>unescapeStep\<close> reads one item from
  the front and returns its bytes and the number of bytes it took.  A code point is written out in UTF-8
  by \<open>encodeRune\<close> (the library's \<open>utf8.EncodeRune\<close>), a lone surrogate as U+FFFD.
\<close>

definition hexval :: "char \<Rightarrow> nat option" where
  "hexval c =
     (let b = byte c in
      if 48 \<le> b \<and> b \<le> 57 then Some (b - 48)
      else if 97 \<le> b \<and> b \<le> 102 then Some (b - 87)
      else if 65 \<le> b \<and> b \<le> 70 then Some (b - 55)
      else None)"

fun hex4 :: "string \<Rightarrow> nat option" where
  "hex4 [a, b, c, d] =
     (case (hexval a, hexval b, hexval c, hexval d) of
        (Some x, Some y, Some z, Some u) \<Rightarrow> Some (((x * 16 + y) * 16 + z) * 16 + u)
      | _ \<Rightarrow> None)"
| "hex4 _ = None"

definition encodeRune :: "nat \<Rightarrow> string" where
  "encodeRune r =
     (if r < 0x80 then [char_of r]
      else if r < 0x800 then [char_of (0xC0 + r div 64), char_of (0x80 + r mod 64)]
      else if (0xD800 \<le> r \<and> r < 0xE000) \<or> 0x10FFFF < r then [CHR 0xEF, CHR 0xBF, CHR 0xBD]
      else if r < 0x10000 then
        [char_of (0xE0 + r div 4096), char_of (0x80 + (r div 64) mod 64), char_of (0x80 + r mod 64)]
      else
        [char_of (0xF0 + r div 262144), char_of (0x80 + (r div 4096) mod 64),
         char_of (0x80 + (r div 64) mod 64), char_of (0x80 + r mod 64)])"

definition simpleEscape :: "char \<Rightarrow> char option" where
  "simpleEscape e =
     (if e = CHR 0x22 then Some (CHR 0x22)
      else if e = CHR 0x5C then Some (CHR 0x5C)
      else if e = CHR ''/'' then Some (CHR ''/'')
      else if e = CHR ''b'' then Some (CHR 0x08)
      else if e = CHR ''f'' then Some (CHR 0x0C)
      else if e = CHR ''n'' then Some (CHR 0x0A)
      else if e = CHR ''r'' then Some (CHR 0x0D)
      else if e = CHR ''t'' then Some (CHR 0x09)
      else None)"

definition lowSurrogate :: "string \<Rightarrow> nat option" where
  "lowSurrogate t =
     (if length t = 6 \<and> t ! 0 = CHR 0x5C \<and> t ! 1 = CHR ''u'' then
        (case hex4 (drop 2 t) of
           Some l \<Rightarrow> (if 0xDC00 \<le> l \<and> l < 0xE000 then Some l else None)
         | None \<Rightarrow> None)
      else None)"

definition unescapeStep :: "string \<Rightarrow> (string \<times> nat) option" where
  "unescapeStep s =
     (case s of
        [] \<Rightarrow> None
      | c # cs \<Rightarrow>
          if c = CHR 0x5C then
            (case cs of
               [] \<Rightarrow> None
             | e # rest \<Rightarrow>
                 if e = CHR ''u'' then
                   (case hex4 (take 4 rest) of
                      None \<Rightarrow> None
                    | Some u \<Rightarrow>
                        if 0xD800 \<le> u \<and> u < 0xDC00 then
                          (case lowSurrogate (take 6 (drop 4 rest)) of
                             Some l \<Rightarrow>
                               Some (encodeRune (0x10000 + (u - 0xD800) * 1024 + (l - 0xDC00)), 12)
                           | None \<Rightarrow> Some (encodeRune RuneError, 6))
                        else Some (encodeRune u, 6))
                 else
                   (case simpleEscape e of
                      None \<Rightarrow> None
                    | Some x \<Rightarrow> Some ([x], 2)))
          else if c = CHR 0x22 \<or> byte c < 0x20 then None
          else Some ([c], 1))"

function jsonUnescape :: "string \<Rightarrow> string option" where
  "jsonUnescape s =
     (if s = [] then Some []
      else
        (case unescapeStep s of
           None \<Rightarrow> None
         | Some (out, k) \<Rightarrow> map_option ((@) out) (jsonUnescape (drop k s))))"
  by pat_completeness auto
termination
proof (relation "measure length")
  fix s out :: string and k :: nat and x :: "string \<times> nat"
  assume "s \<noteq> []" and "unescapeStep s = Some x" and "(out, k) = x"
  then have "0 < k"
    by (auto simp: unescapeStep_def split: list.splits option.splits if_splits)
  with \<open>s \<noteq> []\<close> show "(drop k s, s) \<in> measure length"
    by simp
qed simp

text \<open>The runes of a string with their sizes, as the decoding loop meets them.\<close>

function decodeAll :: "string \<Rightarrow> (nat \<times> nat) list" where
  "decodeAll s =
     (if s = [] then []
      else decodeRuneInString s # decodeAll (drop (snd (decodeRuneInString s)) s))"
  by pat_completeness auto
termination
proof (relation "measure length")
  fix s :: string
  assume "s \<noteq> []"
  then have "0 < snd (decodeRuneInString s)"
    by (simp add: decodeRuneInString_def Let_def)
  with \<open>s \<noteq> []\<close> show "(drop (snd (decodeRuneInString s)) s, s) \<in> measure length"
    by simp
qed simp

text \<open>
  A string with every byte at which decoding fails replaced by the three bytes of
  U+FFFD: what unescaping returns for the escaped form, as shown below.
\<close>

function replaceInvalid :: "string \<Rightarrow> string" where
  "replaceInvalid s =
     (if s = [] then []
      else
        (if fst (decodeRuneInString s) = RuneError \<and> snd (decodeRuneInString s) = 1
         then [CHR 0xEF, CHR 0xBF, CHR 0xBD]
         else take (snd (decodeRuneInString s)) s)
        @ replaceInvalid (drop (snd (decodeRuneInString s)) s))"
  by pat_completeness auto
termination
proof (relation "measure length")
  fix s :: string
  assume "s \<noteq> []"
  then have "0 < snd (decodeRuneInString s)"
    by (simp add: decodeRuneInString_def Let_def)
  with \<open>s \<noteq> []\<close> show "(drop (snd (decodeRuneInString s)) s, s) \<in> measure length"
    by simp
qed simp

subsection \<open>What the quoting predicate is compared with\<close>

text \<open>
  The quoting rule in the specification's words: the string is empty, or contains an
  ASCII space, an equals sign, an ASCII control byte (0 to 31, or DEL), an invalid UTF-8
  sequence, or a rune that is a space or is not printable.
\<close>

definition needsQuotingSpec :: "(nat \<Rightarrow> bool) \<Rightarrow> (nat \<Rightarrow> bool) \<Rightarrow> string \<Rightarrow> bool" where
  "needsQuotingSpec isSpace isPrint s =
     (s = [] \<or> CHR '' '' \<in> set s \<or> CHR ''='' \<in> set s
      \<or> (\<exists>c \<in> set s. byte c < 0x20 \<or> byte c = 0x7F)
      \<or> \<not> validString s
      \<or> (\<exists>x \<in> set (decodeAll s). isSpace (fst x) \<or> \<not> isPrint (fst x)))"

text \<open>
  What the code tests for one decoded rune: below 0x80 the rune is a byte of the string
  and is a control byte below 0x20, a space, a double quote or an equals sign; from 0x80 on
  it is U+FFFD (an invalid sequence or an encoded U+FFFD), a space or not printable.
\<close>

definition quotedRune :: "(nat \<Rightarrow> bool) \<Rightarrow> (nat \<Rightarrow> bool) \<Rightarrow> nat \<Rightarrow> bool" where
  "quotedRune isSpace isPrint r =
     (if r < 0x80 then r < 0x20 \<or> r = 0x20 \<or> r = 0x22 \<or> r = 0x3D
      else r = RuneError \<or> isSpace r \<or> \<not> isPrint r)"

text \<open>
  \<open>unicode.IsSpace\<close> and \<open>unicode.IsPrint\<close> on the ASCII range (tab, line feed, vertical
  tab, form feed, carriage return and space; 0x20 to 0x7E); used for concrete inputs.
\<close>

definition IsSpaceASCII :: "nat \<Rightarrow> bool" where
  "IsSpaceASCII r = (r = 9 \<or> r = 10 \<or> r = 11 \<or> r = 12 \<or> r = 13 \<or> r = 32)"

definition IsPrintASCII :: "nat \<Rightarrow> bool" where
  "IsPrintASCII r = (0x20 \<le> r \<and> r < 0x7F)"

subsection \<open>The decoder by cases on the bytes\<close>

text \<open>
  The same decoder written by pattern matching on the first four bytes; it is proved
  equal to \<open>decodeRuneInString\<close> below and is used in proofs only.
\<close>

definition lo2 :: "nat \<Rightarrow> nat" where
  "lo2 s0 = (if s0 = 0xE0 then 0xA0 else if s0 = 0xF0 then 0x90 else 0x80)"

definition hi2 :: "nat \<Rightarrow> nat" where
  "hi2 s0 = (if s0 = 0xED then 0x9F else if s0 = 0xF4 then 0x8F else 0xBF)"

definition dec :: "string \<Rightarrow> nat \<times> nat" where
  "dec s = (case s of [] \<Rightarrow> (RuneError, 0)
     | a # r \<Rightarrow> if byte a < 0x80 then (byte a, 1)
        else if byte a < 0xC2 \<or> 0xF4 < byte a then (RuneError, 1)
        else (case r of [] \<Rightarrow> (RuneError, 1)
          | b # r2 \<Rightarrow> if byte b < lo2 (byte a) \<or> hi2 (byte a) < byte b then (RuneError, 1)
             else if byte a < 0xE0 then ((byte a mod 32) * 64 + byte b mod 64, 2)
             else (case r2 of [] \<Rightarrow> (RuneError, 1)
               | c # r3 \<Rightarrow> if byte c < 0x80 \<or> 0xBF < byte c then (RuneError, 1)
                  else if byte a < 0xF0 then ((byte a mod 16) * 4096 + (byte b mod 64) * 64 + byte c mod 64, 3)
                  else (case r3 of [] \<Rightarrow> (RuneError, 1)
                    | d # r4 \<Rightarrow> if byte d < 0x80 \<or> 0xBF < byte d then (RuneError, 1)
                       else ((byte a mod 8) * 262144 + (byte b mod 64) * 4096 + (byte c mod 64) * 64 + byte d mod 64, 4)))))"


section \<open>Properties of the decoder\<close>

declare validString.simps [simp del] needsQuoting_loop.simps [simp del]
  appendEscapedJSONString_loop.simps [simp del] escapeRunes.simps [simp del]
  jsonUnescape.simps [simp del] decodeAll.simps [simp del]
  replaceInvalid.simps [simp del]


lemma byte_lt_256: "byte c < 256"
  unfolding byte_def by (metis of_char_mod_256 mod_less_divisor zero_less_numeral)

lemma char_of_byte: "char_of (byte c) = c"
  by (simp add: byte_def)

lemma byte_inj: "byte a = byte b \<Longrightarrow> a = b"
  by (metis char_of_byte)

lemma first_vals:
  "b < 0x80 \<Longrightarrow> first b = 0xF0"
  "0x80 \<le> b \<Longrightarrow> b < 0xC2 \<Longrightarrow> first b = 0xF1"
  "0xC2 \<le> b \<Longrightarrow> b < 0xE0 \<Longrightarrow> first b = 0x02"
  "first 0xE0 = 0x13"
  "0xE0 < b \<Longrightarrow> b < 0xED \<Longrightarrow> first b = 0x03"
  "first 0xED = 0x23"
  "0xED < b \<Longrightarrow> b < 0xF0 \<Longrightarrow> first b = 0x03"
  "first 0xF0 = 0x34"
  "0xF0 < b \<Longrightarrow> b < 0xF4 \<Longrightarrow> first b = 0x04"
  "first 0xF4 = 0x44"
  "0xF4 < b \<Longrightarrow> first b = 0xF1"
  by (simp_all add: first_def)

lemma ranges:
  obtains "b < 0x80" | "0x80 \<le> b" "b < 0xC2" | "0xC2 \<le> b" "b < 0xE0" | "b = 0xE0"
   | "0xE0 < b" "b < 0xED" | "b = 0xED" | "0xED < b" "b < 0xF0" | "b = 0xF0" | "0xF0 < b" "b < 0xF4"
   | "b = 0xF4" | "0xF4 < (b::nat)"
  by linarith

lemma dec_eq: "decodeRuneInString s = dec s"
proof (cases s)
  case Nil
  then show ?thesis by (simp add: decodeRuneInString_def dec_def)
next
  case (Cons a r)
  note defs = decodeRuneInString_def dec_def Let_def first_vals acceptRanges_def lo2_def hi2_def
  show ?thesis
  proof (cases "byte a" rule: ranges)
    case 1
    then show ?thesis using Cons by (simp add: defs)
  next
    case 2
    then show ?thesis using Cons by (simp add: defs)
  next
    case 3
    then show ?thesis using Cons
      by (cases r; cases "tl r"; cases "tl (tl r)") (simp_all add: defs)
  next
    case 4
    then show ?thesis using Cons
      by (cases r; cases "tl r"; cases "tl (tl r)") (simp_all add: defs)
  next
    case 5
    then show ?thesis using Cons
      by (cases r; cases "tl r"; cases "tl (tl r)") (simp_all add: defs)
  next
    case 6
    then show ?thesis using Cons
      by (cases r; cases "tl r"; cases "tl (tl r)") (simp_all add: defs)
  next
    case 7
    then show ?thesis using Cons
      by (cases r; cases "tl r"; cases "tl (tl r)") (simp_all add: defs)
  next
    case 8
    then show ?thesis using Cons
      by (cases r; cases "tl r"; cases "tl (tl r)") (simp_all add: defs)
  next
    case 9
    then show ?thesis using Cons
      by (cases r; cases "tl r"; cases "tl (tl r)") (simp_all add: defs)
  next
    case 10
    then show ?thesis using Cons
      by (cases r; cases "tl r"; cases "tl (tl r)") (simp_all add: defs)
  next
    case 11
    then show ?thesis using Cons by (simp add: defs)
  qed
qed


lemma decode_Nil: "decodeRuneInString [] = (RuneError, 0)"
  by (simp add: dec_eq dec_def)

lemma decode_ascii: "byte a < 128 \<Longrightarrow> decodeRuneInString (a # r) = (byte a, 1)"
  by (simp add: dec_eq dec_def)

lemma decode_two:
  "\<lbrakk>0xC2 \<le> byte a; byte a < 0xE0; 128 \<le> byte b; byte b \<le> 191\<rbrakk>
   \<Longrightarrow> decodeRuneInString (a # b # r) = ((byte a mod 32) * 64 + byte b mod 64, 2)"
  by (simp add: dec_eq dec_def lo2_def hi2_def)

lemma decode_three:
  "\<lbrakk>0xE0 \<le> byte a; byte a < 0xF0; lo2 (byte a) \<le> byte b; byte b \<le> hi2 (byte a);
    128 \<le> byte c; byte c \<le> 191\<rbrakk>
   \<Longrightarrow> decodeRuneInString (a # b # c # r) =
         ((byte a mod 16) * 4096 + (byte b mod 64) * 64 + byte c mod 64, 3)"
  by (simp add: dec_eq dec_def)

lemma decode_four:
  "\<lbrakk>0xF0 \<le> byte a; byte a \<le> 0xF4; lo2 (byte a) \<le> byte b; byte b \<le> hi2 (byte a);
    128 \<le> byte c; byte c \<le> 191; 128 \<le> byte d; byte d \<le> 191\<rbrakk>
   \<Longrightarrow> decodeRuneInString (a # b # c # d # r) =
         ((byte a mod 8) * 262144 + (byte b mod 64) * 4096 + (byte c mod 64) * 64 + byte d mod 64, 4)"
  by (simp add: dec_eq dec_def)

lemma decode_cases [case_names empty ascii bad two three four]:
  obtains "s = []"
  | a r where "s = a # r" "byte a < 128"
  | a r where "s = a # r" "128 \<le> byte a" "decodeRuneInString s = (RuneError, 1)"
  | a b r where "s = a # b # r" "0xC2 \<le> byte a" "byte a < 0xE0" "128 \<le> byte b" "byte b \<le> 191"
  | a b c r where "s = a # b # c # r" "0xE0 \<le> byte a" "byte a < 0xF0"
      "lo2 (byte a) \<le> byte b" "byte b \<le> hi2 (byte a)" "128 \<le> byte c" "byte c \<le> 191"
  | a b c d r where "s = a # b # c # d # r" "0xF0 \<le> byte a" "byte a \<le> 0xF4"
      "lo2 (byte a) \<le> byte b" "byte b \<le> hi2 (byte a)" "128 \<le> byte c" "byte c \<le> 191"
      "128 \<le> byte d" "byte d \<le> 191"
proof (cases s)
  case Nil
  then show ?thesis using that(1) by simp
next
  case (Cons a r)
  note bad = that(3) [OF Cons]
  consider (A) "byte a < 128" | (B) "128 \<le> byte a" "byte a < 0xC2 \<or> 0xF4 < byte a"
    | (C) "0xC2 \<le> byte a" "byte a < 0xE0" | (D) "0xE0 \<le> byte a" "byte a < 0xF0"
    | (E) "0xF0 \<le> byte a" "byte a \<le> 0xF4"
    by linarith
  then show ?thesis
  proof cases
    case A
    then show ?thesis using that(2) Cons by simp
  next
    case B
    then have "decodeRuneInString s = (RuneError, 1)"
      using Cons by (auto simp add: dec_eq dec_def)
    then show ?thesis using bad B by simp
  next
    case C
    show ?thesis
    proof (cases r)
      case Nil
      then have "decodeRuneInString s = (RuneError, 1)"
        using Cons C by (simp add: dec_eq dec_def)
      then show ?thesis using bad C by simp
    next
      case r: (Cons b r2)
      show ?thesis
      proof (cases "128 \<le> byte b \<and> byte b \<le> 191")
        case True
        then show ?thesis using that(4) [of a b r2] Cons r C by simp
      next
        case False
        then have "decodeRuneInString s = (RuneError, 1)"
          using Cons r C by (auto simp add: dec_eq dec_def lo2_def hi2_def)
        then show ?thesis using bad C by simp
      qed
    qed
  next
    case D
    show ?thesis
    proof (cases r)
      case Nil
      then have "decodeRuneInString s = (RuneError, 1)"
        using Cons D by (simp add: dec_eq dec_def)
      then show ?thesis using bad D by simp
    next
      case r: (Cons b r2)
      show ?thesis
      proof (cases "lo2 (byte a) \<le> byte b \<and> byte b \<le> hi2 (byte a)")
        case False
        then have "decodeRuneInString s = (RuneError, 1)"
          using Cons r D by (auto simp add: dec_eq dec_def)
        then show ?thesis using bad D by simp
      next
        case b: True
        show ?thesis
        proof (cases r2)
          case Nil
          then have "decodeRuneInString s = (RuneError, 1)"
            using Cons r D b by (simp add: dec_eq dec_def)
          then show ?thesis using bad D by simp
        next
          case r2: (Cons c r3)
          show ?thesis
          proof (cases "128 \<le> byte c \<and> byte c \<le> 191")
            case True
            then show ?thesis using that(5) [of a b c r3] Cons r r2 D b by simp
          next
            case False
            then have "decodeRuneInString s = (RuneError, 1)"
              using Cons r r2 D b by (auto simp add: dec_eq dec_def)
            then show ?thesis using bad D by simp
          qed
        qed
      qed
    qed
  next
    case E
    show ?thesis
    proof (cases r)
      case Nil
      then have "decodeRuneInString s = (RuneError, 1)"
        using Cons E by (simp add: dec_eq dec_def)
      then show ?thesis using bad E by simp
    next
      case r: (Cons b r2)
      show ?thesis
      proof (cases "lo2 (byte a) \<le> byte b \<and> byte b \<le> hi2 (byte a)")
        case False
        then have "decodeRuneInString s = (RuneError, 1)"
          using Cons r E by (auto simp add: dec_eq dec_def)
        then show ?thesis using bad E by simp
      next
        case b: True
        show ?thesis
        proof (cases r2)
          case Nil
          then have "decodeRuneInString s = (RuneError, 1)"
            using Cons r E b by (simp add: dec_eq dec_def)
          then show ?thesis using bad E by simp
        next
          case r2: (Cons c r3)
          show ?thesis
          proof (cases "128 \<le> byte c \<and> byte c \<le> 191")
            case False
            then have "decodeRuneInString s = (RuneError, 1)"
              using Cons r r2 E b by (auto simp add: dec_eq dec_def)
            then show ?thesis using bad E by simp
          next
            case c: True
            show ?thesis
            proof (cases r3)
              case Nil
              then have "decodeRuneInString s = (RuneError, 1)"
                using Cons r r2 E b c by (simp add: dec_eq dec_def)
              then show ?thesis using bad E by simp
            next
              case r3: (Cons d r4)
              show ?thesis
              proof (cases "128 \<le> byte d \<and> byte d \<le> 191")
                case True
                then show ?thesis using that(6) [of a b c d r4] Cons r r2 r3 E b c by simp
              next
                case False
                then have "decodeRuneInString s = (RuneError, 1)"
                  using Cons r r2 r3 E b c by (auto simp add: dec_eq dec_def)
                then show ?thesis using bad E by simp
              qed
            qed
          qed
        qed
      qed
    qed
  qed
qed


lemma lo2_ge: "128 \<le> lo2 x"
  by (simp add: lo2_def)

lemma hi2_le: "hi2 x \<le> 191"
  by (simp add: hi2_def)

lemma decode_size:
  "s \<noteq> [] \<Longrightarrow> 0 < snd (decodeRuneInString s) \<and> snd (decodeRuneInString s) \<le> length s"
  by (cases s rule: decode_cases)
    (simp_all add: decode_ascii decode_two decode_three decode_four)

lemma decode_multi:
  assumes "s \<noteq> []" "128 \<le> byte (hd s)" "decodeRuneInString s = (c, n)"
    and "\<not> (c = RuneError \<and> n = 1)"
  shows "(\<forall>x \<in> set (take n s). 128 \<le> byte x) \<and> decodeRuneInString (take n s @ t) = (c, n)"
proof (cases s rule: decode_cases)
  case (two a b r)
  then show ?thesis using assms by (auto simp add: decode_two)
next
  case (three a b c r)
  moreover have "128 \<le> byte b" using three(4) lo2_ge [of "byte a"] by linarith
  ultimately show ?thesis using assms by (auto simp add: decode_three)
next
  case (four a b c d r)
  moreover have "128 \<le> byte b" using four(4) lo2_ge [of "byte a"] by linarith
  ultimately show ?thesis using assms by (auto simp add: decode_four)
qed (use assms in auto)

lemma byte_vals:
  "byte (CHR 0xE2) = 226" "byte (CHR 0x80) = 128" "byte (CHR 0xA8) = 168" "byte (CHR 0xA9) = 169"
  by (simp_all add: byte_def)

lemma mod_range:
  fixes v :: nat
  assumes "k * m \<le> v" "v < k * m + m"
  shows "v mod m = v - k * m"
proof -
  obtain d where d: "v = k * m + d" using assms(1) le_Suc_ex by blast
  with assms(2) have "d < m" by simp
  with d show ?thesis by simp
qed

lemma cont_mod: "128 \<le> b \<Longrightarrow> b \<le> 191 \<Longrightarrow> b mod 64 = b - (128::nat)"
  using mod_range [of 2 64 b] by simp

lemma decode_seps:
  assumes "s \<noteq> []" "128 \<le> byte (hd s)" "decodeRuneInString s = (c, n)" "c = 0x2028 \<or> c = 0x2029"
  shows "take n s = [CHR 0xE2, CHR 0x80, char_of (128 + c mod 64)]"
proof (cases s rule: decode_cases)
  case (two a b r)
  then have "c = (byte a mod 32) * 64 + byte b mod 64" using assms(3) by (simp add: decode_two)
  moreover have "byte a mod 32 < 32" "byte b mod 64 < 64" by simp_all
  ultimately have "c < 2048" by linarith
  then show ?thesis using assms(4) by simp
next
  case (three a b c' r)
  have b: "128 \<le> byte b" "byte b \<le> 191"
    using three(4,5) lo2_ge [of "byte a"] hi2_le [of "byte a"] by linarith+
  have ma: "byte a mod 16 = byte a - 224"
    using mod_range [of 14 16 "byte a"] three(2,3) by simp
  have c: "c = (byte a - 224) * 4096 + (byte b - 128) * 64 + (byte c' - 128)" and n: "n = 3"
    using assms(3) three by (simp_all add: decode_three ma cont_mod b)
  have cr: "8232 \<le> c" "c \<le> 8233" using assms(4) by auto
  define x y z where "x = byte a - 224" and "y = byte b - 128" and "z = byte c' - 128"
  have xyz: "c = x * 4096 + y * 64 + z" "y \<le> 63" "z \<le> 63"
    using c b three(6,7) by (simp_all add: x_def y_def z_def)
  have "x = 2" using xyz cr by linarith
  moreover have "y = 0" using xyz cr \<open>x = 2\<close> by linarith
  moreover have "z = c - 8192" using xyz cr \<open>x = 2\<close> \<open>y = 0\<close> by linarith
  ultimately have "byte a = 226 \<and> byte b = 128 \<and> byte c' = 128 + (c - 8192)"
    using three(2,6) b unfolding x_def y_def z_def by linarith
  moreover have "c - 8192 = c mod 64" using assms(4) by auto
  ultimately have "a = CHR 0xE2" "b = CHR 0x80" "c' = char_of (128 + c mod 64)"
    using byte_inj [of a "CHR 0xE2"] byte_inj [of b "CHR 0x80"] char_of_byte [of c']
    by (simp_all add: byte_vals)
  then show ?thesis using three(1) n by simp
next
  case (four a b c' d r)
  have ma: "byte a mod 8 = byte a - 240"
    using mod_range [of 30 8 "byte a"] four(2,3) by simp
  have b: "128 \<le> byte b" "byte b \<le> 191"
    using four(4,5) lo2_ge [of "byte a"] hi2_le [of "byte a"] by linarith+
  have c: "c = (byte a - 240) * 262144 + (byte b - 128) * 4096 + (byte c' mod 64) * 64 + byte d mod 64"
    using assms(3) four by (simp add: decode_four ma cont_mod b)
  have "byte a = 240 \<Longrightarrow> 144 \<le> byte b" using four(4) by (simp add: lo2_def)
  then have "65536 \<le> c" using c four(2,3) b by (cases "byte a = 240") simp_all
  then show ?thesis using assms(4) by simp
next
  case (bad a r)
  then show ?thesis using assms by (simp add: RuneError_def)
qed (use assms in auto)


section \<open>The escaping loop, rune by rune\<close>

lemma safeSet_table: "\<forall>b \<in> set [0..<128]. safeSet ! b = (32 \<le> b \<and> b \<noteq> 34 \<and> b \<noteq> 92)"
  by code_simp

lemma safeSet_nth: "b < 128 \<Longrightarrow> safeSet ! b = (32 \<le> b \<and> b \<noteq> 34 \<and> b \<noteq> 92)"
  using safeSet_table by simp

lemma escapeRunes_Nil: "escapeRunes [] = []"
  by (simp add: escapeRunes.simps)

lemma escapeRunes_ascii:
  "byte a < 128 \<Longrightarrow> escapeRunes (a # r) = escapeByte a @ escapeRunes r"
  by (subst escapeRunes.simps) (simp add: RuneSelf_def)

lemma escapeRunes_multi:
  "128 \<le> byte a \<Longrightarrow> decodeRuneInString (a # r) = (c, n) \<Longrightarrow>
   escapeRunes (a # r) =
     (if c = RuneError \<and> n = 1 then CHR 0x5C # ''ufffd''
      else if c = 0x2028 then CHR 0x5C # ''u2028''
      else if c = 0x2029 then CHR 0x5C # ''u2029''
      else take n (a # r)) @ escapeRunes (drop n (a # r))"
  by (subst escapeRunes.simps) (simp add: RuneSelf_def Let_def)

lemma slice_snoc:
  assumes "start \<le> i" "i < length s"
  shows "take (Suc i - start) (drop start s) = take (i - start) (drop start s) @ [s ! i]"
proof -
  have "Suc i - start = Suc (i - start)" using assms by simp
  moreover have "i - start < length (drop start s)" using assms by simp
  moreover have "drop start s ! (i - start) = s ! i" using assms by simp
  ultimately show ?thesis by (simp add: take_Suc_conv_app_nth)
qed

lemma slice_app:
  assumes "start \<le> i"
  shows "take (i + n - start) (drop start s) = take (i - start) (drop start s) @ take n (drop i s)"
proof -
  have "i + n - start = (i - start) + n" using assms by simp
  moreover have "drop (i - start) (drop start s) = drop i s" using assms by simp
  ultimately show ?thesis by (simp add: take_add del: drop_drop)
qed

lemma loop_eq:
  "start \<le> i \<Longrightarrow> i \<le> length s \<Longrightarrow>
   appendEscapedJSONString_loop buf s start i =
     buf @ take (i - start) (drop start s) @ escapeRunes (drop i s)"
proof (induction buf s start i rule: appendEscapedJSONString_loop.induct)
  case (1 buf s start i)
  show ?case
  proof (cases "i < length s")
    case False
    then have "i = length s" using "1.prems" by simp
    then show ?thesis
      by (subst appendEscapedJSONString_loop.simps) (simp add: escapeRunes_Nil)
  next
    case True
    then have d: "drop i s = s ! i # drop (Suc i) s" by (simp add: Cons_nth_drop_Suc)
    define buf1 where "buf1 = (if start < i then buf @ take (i - start) (drop start s) else buf)"
    have pend: "buf1 = buf @ take (i - start) (drop start s)"
      using "1.prems" by (simp add: buf1_def)
    show ?thesis
    proof (cases "byte (s ! i) < RuneSelf")
      case ascii: True
      show ?thesis
      proof (cases "safeSet ! byte (s ! i)")
        case safe: True
        have "appendEscapedJSONString_loop buf s start i = appendEscapedJSONString_loop buf s start (i + 1)"
          using True ascii safe by (subst appendEscapedJSONString_loop.simps) simp
        also have "\<dots> = buf @ take (i + 1 - start) (drop start s) @ escapeRunes (drop (i + 1) s)"
          using "1.IH"(1) [OF True refl ascii safe] "1.prems" True by simp
        also have "\<dots> = buf @ take (i - start) (drop start s) @ escapeRunes (drop i s)"
          using slice_snoc [OF "1.prems"(1) True] ascii safe
          by (simp add: d escapeRunes_ascii RuneSelf_def escapeByte_def)
        finally show ?thesis .
      next
        case unsafe: False
        define buf2 where "buf2 = buf1 @ [CHR 0x5C]"
        define buf3 where "buf3 =
          (if s ! i = CHR 0x5C \<or> s ! i = CHR 0x22 then buf2 @ [s ! i]
           else if s ! i = CHR 0x0A then buf2 @ ''n''
           else if s ! i = CHR 0x0D then buf2 @ ''r''
           else if s ! i = CHR 0x09 then buf2 @ ''t''
           else buf2 @ ''u00'' @ [hex ! (byte (s ! i) div 16)] @ [hex ! (byte (s ! i) mod 16)])"
        have b3: "buf3 = buf @ take (i - start) (drop start s) @ escapeByte (s ! i)"
          using unsafe by (simp add: buf3_def buf2_def pend escapeByte_def)
        have "appendEscapedJSONString_loop buf s start i = appendEscapedJSONString_loop buf3 s (i + 1) (i + 1)"
          using True ascii unsafe
          by (subst appendEscapedJSONString_loop.simps) (simp add: Let_def buf3_def buf2_def buf1_def)
        also have "\<dots> = buf3 @ escapeRunes (drop (i + 1) s)"
          using "1.IH"(2) [OF True refl ascii unsafe buf1_def buf2_def buf3_def] True by simp
        also have "\<dots> = buf @ take (i - start) (drop start s) @ escapeRunes (drop i s)"
          using ascii by (simp add: d escapeRunes_ascii RuneSelf_def b3)
        finally show ?thesis .
      qed
    next
      case multi: False
      define c where "c = fst (decodeRuneInString (drop i s))"
      define n where "n = snd (decodeRuneInString (drop i s))"
      have dec: "decodeRuneInString (drop i s) = (c, n)" by (simp add: c_def n_def)
      have n: "0 < n" "i + n \<le> length s"
        using decode_size [of "drop i s"] dec True by auto
      have esc: "escapeRunes (drop i s) =
          (if c = RuneError \<and> n = 1 then CHR 0x5C # ''ufffd''
           else if c = 0x2028 then CHR 0x5C # ''u2028''
           else if c = 0x2029 then CHR 0x5C # ''u2029''
           else take n (drop i s)) @ escapeRunes (drop (i + n) s)"
        using escapeRunes_multi [of "s ! i" "drop (Suc i) s" c n] multi dec
        by (simp add: d [symmetric] RuneSelf_def add.commute)
      consider (bad) "c = RuneError \<and> n = 1" | (sep) "\<not> (c = RuneError \<and> n = 1)" "c = 0x2028 \<or> c = 0x2029"
        | (plain) "\<not> (c = RuneError \<and> n = 1)" "\<not> (c = 0x2028 \<or> c = 0x2029)" by blast
      then show ?thesis
      proof cases
        case bad
        define buf2 where "buf2 = buf1 @ [CHR 0x5C] @ ''ufffd''"
        have "appendEscapedJSONString_loop buf s start i = appendEscapedJSONString_loop buf2 s (i + n) (i + n)"
          using True multi
          by (subst appendEscapedJSONString_loop.simps)
            (simp only: Let_def buf2_def buf1_def c_def [symmetric] n_def [symmetric] bad simp_thms if_True if_False)
        also have "\<dots> = buf2 @ escapeRunes (drop (i + n) s)"
          using "1.IH"(3) [OF True refl multi c_def n_def bad buf1_def buf2_def] n by simp
        finally show ?thesis using esc bad by (simp add: buf2_def pend)
      next
        case sep
        define buf2 where "buf2 = buf1 @ [CHR 0x5C] @ ''u202'' @ [hex ! (c mod 16)]"
        have nb: "\<not> (c = RuneError \<and> n = 1)" using sep by simp
        have "appendEscapedJSONString_loop buf s start i = appendEscapedJSONString_loop buf2 s (i + n) (i + n)"
          using True multi sep(2)
          by (subst appendEscapedJSONString_loop.simps)
            (simp only: Let_def buf2_def buf1_def c_def [symmetric] n_def [symmetric] nb if_True if_False)
        also have "\<dots> = buf2 @ escapeRunes (drop (i + n) s)"
          using "1.IH"(4) [OF True refl multi c_def n_def sep buf1_def buf2_def] n by simp
        finally show ?thesis using esc sep by (auto simp add: buf2_def hex_def pend)
      next
        case plain
        have "appendEscapedJSONString_loop buf s start i = appendEscapedJSONString_loop buf s start (i + n)"
          using True multi
          by (subst appendEscapedJSONString_loop.simps)
            (simp only: Let_def c_def [symmetric] n_def [symmetric] plain if_True if_False)
        also have "\<dots> = buf @ take (i + n - start) (drop start s) @ escapeRunes (drop (i + n) s)"
          using "1.IH"(5) [OF True refl multi c_def n_def plain] n "1.prems" by simp
        also have "\<dots> = buf @ take (i - start) (drop start s) @ escapeRunes (drop i s)"
          unfolding esc slice_app [OF "1.prems"(1), of n s] using plain by auto
        finally show ?thesis .
      qed
    qed
  qed
qed

lemma appendEscapedJSONString_eq: "appendEscapedJSONString buf s = buf @ escapeRunes s"
  using loop_eq [of 0 0 s buf] by (simp add: appendEscapedJSONString_def)


section \<open>Unescaping the escaped form\<close>

lemma hexval_table: "\<forall>k \<in> set [0..<16]. hexval (hex ! k) = Some k"
  by code_simp

lemma hexval_hex: "k < 16 \<Longrightarrow> hexval (hex ! k) = Some k"
  using hexval_table by simp

lemma char_of_vals:
  "char_of (239::nat) = CHR 0xEF" "char_of (191::nat) = CHR 0xBF" "char_of (189::nat) = CHR 0xBD"
  "char_of (226::nat) = CHR 0xE2" "char_of (128::nat) = CHR 0x80" "char_of (168::nat) = CHR 0xA8"
  "char_of (169::nat) = CHR 0xA9"
  using char_of_byte [of "CHR 0xEF"] char_of_byte [of "CHR 0xBF"] char_of_byte [of "CHR 0xBD"]
    char_of_byte [of "CHR 0xE2"] char_of_byte [of "CHR 0x80"] char_of_byte [of "CHR 0xA8"]
    char_of_byte [of "CHR 0xA9"]
  by (simp_all add: byte_def)

lemma encodeRune_RuneError: "encodeRune RuneError = [CHR 0xEF, CHR 0xBF, CHR 0xBD]"
  by (simp add: encodeRune_def RuneError_def char_of_vals)

lemma encodeRune_2028: "encodeRune 0x2028 = [CHR 0xE2, CHR 0x80, CHR 0xA8]"
  by (simp add: encodeRune_def char_of_vals)

lemma encodeRune_2029: "encodeRune 0x2029 = [CHR 0xE2, CHR 0x80, CHR 0xA9]"
  by (simp add: encodeRune_def char_of_vals)

lemma hex4_fffd: "hex4 ''fffd'' = Some RuneError"
  by (simp add: hexval_def byte_def RuneError_def)

lemma hex4_2028: "hex4 ''2028'' = Some 0x2028"
  by (simp add: hexval_def byte_def)

lemma hex4_2029: "hex4 ''2029'' = Some 0x2029"
  by (simp add: hexval_def byte_def)

lemma jsonUnescape_Nil: "jsonUnescape [] = Some []"
  by (simp add: jsonUnescape.simps)

lemma jsonUnescape_step:
  "unescapeStep (a # r) = Some (out, k) \<Longrightarrow>
     jsonUnescape (a # r) = map_option ((@) out) (jsonUnescape (drop k (a # r)))"
  by (subst jsonUnescape.simps) simp

lemma unescape_copy:
  assumes "32 \<le> byte a" "a \<noteq> CHR 0x22" "a \<noteq> CHR 0x5C"
  shows "jsonUnescape (a # r) = map_option ((@) [a]) (jsonUnescape r)"
proof -
  have "unescapeStep (a # r) = Some ([a], 1)"
    using assms by (simp add: unescapeStep_def)
  from jsonUnescape_step [OF this] show ?thesis by simp
qed

lemma map_option_append:
  "map_option ((@) xs) (map_option ((@) ys) z) = map_option ((@) (xs @ ys)) z"
  by (cases z) simp_all

lemma unescape_copies:
  "\<forall>x \<in> set xs. 128 \<le> byte x \<Longrightarrow>
     jsonUnescape (xs @ r) = map_option ((@) xs) (jsonUnescape r)"
proof (induction xs)
  case Nil
  show ?case by (cases "jsonUnescape r") simp_all
next
  case (Cons a xs)
  have a: "32 \<le> byte a" "a \<noteq> CHR 0x22" "a \<noteq> CHR 0x5C"
    using Cons.prems by (auto simp: byte_def)
  show ?case
    using unescape_copy [OF a, of "xs @ r"] Cons by (cases "jsonUnescape r") simp_all
qed

lemma unescape_simple:
  assumes "simpleEscape e = Some x" "e \<noteq> CHR ''u''"
  shows "jsonUnescape (CHR 0x5C # e # r) = map_option ((@) [x]) (jsonUnescape r)"
proof -
  have "unescapeStep (CHR 0x5C # e # r) = Some ([x], 2)"
    using assms by (simp add: unescapeStep_def)
  from jsonUnescape_step [OF this] show ?thesis by simp
qed

lemma unescape_u:
  assumes "hex4 [h1, h2, h3, h4] = Some u" "u < 0xD800 \<or> 0xDC00 \<le> u"
  shows "jsonUnescape (CHR 0x5C # CHR ''u'' # h1 # h2 # h3 # h4 # r)
           = map_option ((@) (encodeRune u)) (jsonUnescape r)"
proof -
  have "unescapeStep (CHR 0x5C # CHR ''u'' # h1 # h2 # h3 # h4 # r) = Some (encodeRune u, 6)"
    using assms by (auto simp add: unescapeStep_def)
  from jsonUnescape_step [OF this] show ?thesis by simp
qed


lemma unescape_escapeByte:
  assumes "byte a < 128"
  shows "jsonUnescape (escapeByte a @ r) = map_option ((@) [a]) (jsonUnescape r)"
proof (cases "safeSet ! byte a")
  case True
  then have "32 \<le> byte a" "a \<noteq> CHR 0x22" "a \<noteq> CHR 0x5C"
    using assms safeSet_nth [of "byte a"] by (auto simp: byte_def)
  from unescape_copy [OF this] True show ?thesis by (simp add: escapeByte_def)
next
  case False
  consider (q) "a = CHR 0x5C \<or> a = CHR 0x22" | (n) "a = CHR 0x0A" | (r) "a = CHR 0x0D" | (t) "a = CHR 0x09"
    | (u) "a \<noteq> CHR 0x5C" "a \<noteq> CHR 0x22" "a \<noteq> CHR 0x0A" "a \<noteq> CHR 0x0D" "a \<noteq> CHR 0x09"
    by blast
  then show ?thesis
  proof cases
    case q
    then have "simpleEscape a = Some a" "a \<noteq> CHR ''u''" by (auto simp: simpleEscape_def)
    from unescape_simple [OF this] False q show ?thesis by (auto simp add: escapeByte_def)
  next
    case n
    have "simpleEscape (CHR ''n'') = Some a" "CHR ''n'' \<noteq> CHR ''u''" using n by (auto simp: simpleEscape_def)
    from unescape_simple [OF this] False n show ?thesis by (simp add: escapeByte_def)
  next
    case r
    have "simpleEscape (CHR ''r'') = Some a" "CHR ''r'' \<noteq> CHR ''u''" using r by (auto simp: simpleEscape_def)
    from unescape_simple [OF this] False r show ?thesis by (simp add: escapeByte_def)
  next
    case t
    have "simpleEscape (CHR ''t'') = Some a" "CHR ''t'' \<noteq> CHR ''u''" using t by (auto simp: simpleEscape_def)
    from unescape_simple [OF this] False t show ?thesis by (simp add: escapeByte_def)
  next
    case u
    have "byte a \<noteq> 34" "byte a \<noteq> 92"
      using u(1,2) byte_inj [of a "CHR 0x22"] byte_inj [of a "CHR 0x5C"] by (auto simp: byte_def)
    then have lt: "byte a < 32" using False assms safeSet_nth [of "byte a"] by auto
    then have d: "byte a div 16 < 16" "byte a mod 16 < 16" by simp_all
    have h0: "hexval (CHR ''0'') = Some 0" by (simp add: hexval_def byte_def)
    have "hex4 [CHR ''0'', CHR ''0'', hex ! (byte a div 16), hex ! (byte a mod 16)] = Some (byte a)"
      by (simp add: h0 hexval_hex d)
    from unescape_u [OF this] lt
    have "jsonUnescape (CHR 0x5C # CHR ''u'' # CHR ''0'' # CHR ''0'' # hex ! (byte a div 16) # hex ! (byte a mod 16) # r)
            = map_option ((@) (encodeRune (byte a))) (jsonUnescape r)"
      by simp
    moreover have "encodeRune (byte a) = [a]" using lt by (simp add: encodeRune_def char_of_byte)
    ultimately show ?thesis using False u by (simp add: escapeByte_def)
  qed
qed

lemma unescape_fffd:
  "jsonUnescape (CHR 0x5C # ''ufffd'' @ r) = map_option ((@) [CHR 0xEF, CHR 0xBF, CHR 0xBD]) (jsonUnescape r)"
proof -
  have "RuneError < 0xD800 \<or> 0xDC00 \<le> RuneError" by (simp add: RuneError_def)
  from unescape_u [OF hex4_fffd this, of r] show ?thesis by (simp add: encodeRune_RuneError)
qed

lemma unescape_2028:
  "jsonUnescape (CHR 0x5C # ''u2028'' @ r) = map_option ((@) [CHR 0xE2, CHR 0x80, CHR 0xA8]) (jsonUnescape r)"
  using unescape_u [of "CHR ''2''" "CHR ''0''" "CHR ''2''" "CHR ''8''" "0x2028" r] hex4_2028
  by (simp add: encodeRune_2028)

lemma unescape_2029:
  "jsonUnescape (CHR 0x5C # ''u2029'' @ r) = map_option ((@) [CHR 0xE2, CHR 0x80, CHR 0xA9]) (jsonUnescape r)"
  using unescape_u [of "CHR ''2''" "CHR ''0''" "CHR ''2''" "CHR ''9''" "0x2029" r] hex4_2029
  by (simp add: encodeRune_2029)


lemma replaceInvalid_Nil: "replaceInvalid [] = []"
  by (simp add: replaceInvalid.simps)

lemma replaceInvalid_ascii: "byte a < 128 \<Longrightarrow> replaceInvalid (a # r) = a # replaceInvalid r"
  by (subst replaceInvalid.simps) (simp add: decode_ascii RuneError_def)

lemma replaceInvalid_multi:
  "decodeRuneInString (a # r) = (c, n) \<Longrightarrow>
   replaceInvalid (a # r) =
     (if c = RuneError \<and> n = 1 then [CHR 0xEF, CHR 0xBF, CHR 0xBD] else take n (a # r))
     @ replaceInvalid (drop n (a # r))"
  by (subst replaceInvalid.simps) simp

lemma validString_Nil: "validString []"
  by (simp add: validString.simps)

lemma validString_ascii: "byte a < 128 \<Longrightarrow> validString (a # r) = validString r"
  by (subst validString.simps) (simp add: decode_ascii RuneError_def)

lemma validString_multi:
  "decodeRuneInString (a # r) = (c, n) \<Longrightarrow>
   validString (a # r) = (\<not> (c = RuneError \<and> n = 1) \<and> validString (drop n (a # r)))"
  by (subst validString.simps) simp

lemma validString_ascii_app: "\<forall>x \<in> set xs. byte x < 128 \<Longrightarrow> validString (xs @ r) = validString r"
  by (induction xs) (simp_all add: validString_ascii)

lemma validString_rune_app:
  assumes "s \<noteq> []" "128 \<le> byte (hd s)" "decodeRuneInString s = (c, n)" "\<not> (c = RuneError \<and> n = 1)"
  shows "validString (take n s @ r) = validString r"
proof -
  obtain a t where s: "s = a # t" using assms(1) by (cases s) auto
  have n: "0 < n" "n \<le> length s" using decode_size [OF assms(1)] assms(3) by simp_all
  then obtain m where m: "n = Suc m" by (cases n) auto
  have d: "decodeRuneInString (take n s @ r) = (c, n)"
    using decode_multi [OF assms] by simp
  have "take n s @ r = a # (take m t @ r)" using s m by simp
  with d have "validString (take n s @ r) = validString (drop n (take n s @ r))"
    using validString_multi [of a "take m t @ r" c n] assms(4) by simp
  then show ?thesis using n by simp
qed

lemma hex_ascii_table: "\<forall>k \<in> set [0..<16]. byte (hex ! k) < 128"
  by (simp add: hex_def byte_def upt_rec)

lemma hex_ascii: "k < 16 \<Longrightarrow> byte (hex ! k) < 128"
  using hex_ascii_table by simp

lemma escapeByte_ascii:
  assumes "byte a < 128"
  shows "\<forall>x \<in> set (escapeByte a). byte x < 128"
proof -
  have "byte a div 16 < 16" using assms less_mult_imp_div_less [of "byte a" 16 16] by simp
  then have h: "byte (hex ! (byte a div 16)) < 128" "byte (hex ! (byte a mod 16)) < 128"
    by (simp_all add: hex_ascii)
  have c: "byte (CHR 0x5C) < 128" "byte (CHR ''n'') < 128" "byte (CHR ''r'') < 128"
    "byte (CHR ''t'') < 128" "byte (CHR ''u'') < 128" "byte (CHR ''0'') < 128"
    by (simp_all add: byte_def)
  show ?thesis using assms h c by (simp add: escapeByte_def)
qed

lemma roundtrip_general: "jsonUnescape (escapeRunes s) = Some (replaceInvalid s)"
proof (induction s rule: escapeRunes.induct)
  case (1 s)
  show ?case
  proof (cases s)
    case Nil
    then show ?thesis by (simp add: escapeRunes_Nil jsonUnescape_Nil replaceInvalid_Nil)
  next
    case (Cons a r)
    show ?thesis
    proof (cases "byte a < 128")
      case True
      then have "jsonUnescape (escapeRunes r) = Some (replaceInvalid r)"
        using "1.IH"(1) Cons by (simp add: RuneSelf_def)
      then show ?thesis
        using True Cons by (simp add: escapeRunes_ascii unescape_escapeByte replaceInvalid_ascii)
    next
      case False
      define c where "c = fst (decodeRuneInString s)"
      define n where "n = snd (decodeRuneInString s)"
      have dec: "decodeRuneInString (a # r) = (c, n)" using Cons by (simp add: c_def n_def)
      have s: "s \<noteq> []" "128 \<le> byte (hd s)" using Cons False by simp_all
      have IH: "jsonUnescape (escapeRunes (drop n s)) = Some (replaceInvalid (drop n s))"
        using "1.IH"(2) [OF s(1) _ c_def n_def] False Cons by (simp add: RuneSelf_def)
      note esc = escapeRunes_multi [OF _ dec] replaceInvalid_multi [OF dec]
      note unesc = unescape_fffd [simplified] unescape_2028 [simplified] unescape_2029 [simplified]
      consider (bad) "c = RuneError \<and> n = 1" | (sep) "\<not> (c = RuneError \<and> n = 1)" "c = 0x2028 \<or> c = 0x2029"
        | (plain) "\<not> (c = RuneError \<and> n = 1)" "\<not> (c = 0x2028 \<or> c = 0x2029)" by blast
      then show ?thesis
      proof cases
        case bad
        then show ?thesis using esc IH False Cons by (simp add: unesc)
      next
        case sep
        have t: "take n s = [CHR 0xE2, CHR 0x80, char_of (128 + c mod 64)]"
          using decode_seps [OF s _ sep(2)] dec Cons by simp
        show ?thesis using sep(2)
        proof
          assume "c = 0x2028"
          then show ?thesis using esc IH False Cons t sep(1)
            by (simp add: unesc char_of_vals RuneError_def)
        next
          assume "c = 0x2029"
          then show ?thesis using esc IH False Cons t sep(1)
            by (simp add: unesc char_of_vals RuneError_def)
        qed
      next
        case plain
        have "\<forall>x \<in> set (take n s). 128 \<le> byte x"
          using decode_multi [OF s _ plain(1)] dec Cons by simp
        from unescape_copies [OF this, of "escapeRunes (drop n s)"]
        show ?thesis using esc IH False Cons plain by auto
      qed
    qed
  qed
qed



lemma replaceInvalid_length:
  "length s \<le> length (replaceInvalid s) \<and> (\<not> validString s \<longrightarrow> length s < length (replaceInvalid s))"
proof (induction s rule: replaceInvalid.induct)
  case (1 s)
  show ?case
  proof (cases s)
    case Nil
    then show ?thesis by (simp add: replaceInvalid_Nil validString_Nil)
  next
    case (Cons a r)
    obtain c n where dec: "decodeRuneInString (a # r) = (c, n)" by force
    have n: "0 < n" "n \<le> length (a # r)" using decode_size [of "a # r"] dec by simp_all
    have IH: "length (drop n (a # r)) \<le> length (replaceInvalid (drop n (a # r)))"
      "\<not> validString (drop n (a # r)) \<Longrightarrow> length (drop n (a # r)) < length (replaceInvalid (drop n (a # r)))"
      using "1.IH" dec Cons by simp_all
    show ?thesis
    proof (cases "c = RuneError \<and> n = 1")
      case True
      then show ?thesis using replaceInvalid_multi [OF dec] validString_multi [OF dec] IH(1) Cons by simp
    next
      case False
      have "length (replaceInvalid s) = n + length (replaceInvalid (drop n (a # r)))"
        using replaceInvalid_multi [OF dec] False n Cons by simp
      moreover have "length s = n + length (drop n (a # r))" using n Cons by simp
      ultimately show ?thesis using IH validString_multi [OF dec] False Cons by auto
    qed
  qed
qed

lemma validString_escapeRunes: "validString (escapeRunes s)"
proof (induction s rule: escapeRunes.induct)
  case (1 s)
  show ?case
  proof (cases s)
    case Nil
    then show ?thesis by (simp add: escapeRunes_Nil validString_Nil)
  next
    case (Cons a r)
    show ?thesis
    proof (cases "byte a < 128")
      case True
      then have "validString (escapeRunes r)"
        using "1.IH"(1) Cons by (simp add: RuneSelf_def)
      then show ?thesis
        using True Cons by (simp add: escapeRunes_ascii validString_ascii_app escapeByte_ascii)
    next
      case False
      define c where "c = fst (decodeRuneInString s)"
      define n where "n = snd (decodeRuneInString s)"
      have dec: "decodeRuneInString (a # r) = (c, n)" using Cons by (simp add: c_def n_def)
      have s: "s \<noteq> []" "128 \<le> byte (hd s)" using Cons False by simp_all
      have IH: "validString (escapeRunes (drop n s))"
        using "1.IH"(2) [OF s(1) _ c_def n_def] False Cons by (simp add: RuneSelf_def)
      have asc: "\<forall>x \<in> set (CHR 0x5C # ''ufffd''). byte x < 128"
        "\<forall>x \<in> set (CHR 0x5C # ''u2028''). byte x < 128"
        "\<forall>x \<in> set (CHR 0x5C # ''u2029''). byte x < 128"
        by (simp_all add: byte_def)
      note va = asc [THEN validString_ascii_app, of "escapeRunes (drop n s)"]
      show ?thesis
      proof (cases "(c = RuneError \<and> n = 1) \<or> c = 0x2028 \<or> c = 0x2029")
        case True
        then show ?thesis using escapeRunes_multi [OF _ dec] False IH va Cons by auto
      next
        case plain: False
        then have "validString (take n s @ escapeRunes (drop n s)) = validString (escapeRunes (drop n s))"
          using validString_rune_app [OF s, of c n] dec Cons by simp
        then show ?thesis using escapeRunes_multi [OF _ dec] False IH plain Cons by auto
      qed
    qed
  qed
qed


lemma decode_FF: "decodeRuneInString (CHR 0xFF # r) = (RuneError, 1)"
  by (simp add: dec_eq dec_def byte_def)


section \<open>The quoting predicate, rune by rune\<close>

lemma byte_eq_iff: "(a = b) = (byte a = byte b)"
  using byte_inj by auto

lemma byte_ascii_vals:
  "byte (CHR '' '') = 32" "byte (CHR ''='') = 61" "byte (CHR 0x5C) = 92" "byte (CHR 0x22) = 34"
  by (simp_all add: byte_def)

lemma decodeAll_Nil: "decodeAll [] = []"
  by (simp add: decodeAll.simps)

lemma decodeAll_Cons:
  "decodeRuneInString (a # r) = (c, n) \<Longrightarrow> decodeAll (a # r) = (c, n) # decodeAll (drop n (a # r))"
  by (subst decodeAll.simps) simp

lemma decode_rune_ge:
  assumes "128 \<le> byte a"
  shows "128 \<le> fst (decodeRuneInString (a # r))"
proof (cases "a # r" rule: decode_cases)
  case (bad a' r')
  then show ?thesis by (simp add: RuneError_def)
next
  case (two a' b r')
  have "byte a' mod 32 = byte a' - 192"
    using mod_range [of 6 32 "byte a'"] two(2,3) by simp
  then show ?thesis using two by (simp add: decode_two)
next
  case (three a' b c r')
  have ma: "byte a' mod 16 = byte a' - 224"
    using mod_range [of 14 16 "byte a'"] three(2,3) by simp
  have b: "128 \<le> byte b" "byte b \<le> 191"
    using three(4,5) lo2_ge [of "byte a'"] hi2_le [of "byte a'"] by linarith+
  have "byte a' = 224 \<Longrightarrow> 160 \<le> byte b" using three(4) by (simp add: lo2_def)
  then have "128 \<le> (byte a' - 224) * 4096 + (byte b - 128) * 64"
    using three(2) by (cases "byte a' = 224") simp_all
  then show ?thesis using three by (simp add: decode_three ma cont_mod b)
next
  case (four a' b c d r')
  have ma: "byte a' mod 8 = byte a' - 240"
    using mod_range [of 30 8 "byte a'"] four(2,3) by simp
  have b: "128 \<le> byte b" "byte b \<le> 191"
    using four(4,5) lo2_ge [of "byte a'"] hi2_le [of "byte a'"] by linarith+
  have "byte a' = 240 \<Longrightarrow> 144 \<le> byte b" using four(4) by (simp add: lo2_def)
  then have "128 \<le> (byte a' - 240) * 262144 + (byte b - 128) * 4096"
    using four(2) by (cases "byte a' = 240") simp_all
  then show ?thesis using four by (simp add: decode_four ma cont_mod b)
qed (use assms in auto)

lemma needsQuoting_loop_eq:
  "i \<le> length s \<Longrightarrow>
   needsQuoting_loop isSpace isPrint s i
     = (\<exists>x \<in> set (decodeAll (drop i s)). quotedRune isSpace isPrint (fst x))"
proof (induction isSpace isPrint s i rule: needsQuoting_loop.induct)
  case (1 isSpace isPrint s i)
  show ?case
  proof (cases "i < length s")
    case False
    then show ?thesis using "1.prems"
      by (subst needsQuoting_loop.simps) (simp add: decodeAll_Nil)
  next
    case True
    then have d: "drop i s = s ! i # drop (Suc i) s" by (simp add: Cons_nth_drop_Suc)
    show ?thesis
    proof (cases "byte (s ! i) < RuneSelf")
      case ascii: True
      then have lt: "byte (s ! i) < 128" by (simp add: RuneSelf_def)
      have da: "decodeAll (drop i s) = (byte (s ! i), 1) # decodeAll (drop (Suc i) s)"
        using decodeAll_Cons [OF decode_ascii [OF lt], of "drop (Suc i) s"] by (simp add: d)
      have eqs: "(s ! i = CHR '' '') = (byte (s ! i) = 32)" "(s ! i = CHR ''='') = (byte (s ! i) = 61)"
        "(s ! i = CHR 0x5C) = (byte (s ! i) = 92)"
        using byte_eq_iff [of "s ! i" "CHR '' ''"] byte_eq_iff [of "s ! i" "CHR ''=''"]
          byte_eq_iff [of "s ! i" "CHR 0x5C"] byte_ascii_vals
        by simp_all
      have q: "(s ! i \<noteq> CHR 0x5C \<and> (s ! i = CHR '' '' \<or> s ! i = CHR ''='' \<or> \<not> safeSet ! byte (s ! i)))
                = quotedRune isSpace isPrint (byte (s ! i))"
        unfolding eqs using lt safeSet_nth [of "byte (s ! i)"] by (simp add: quotedRune_def) linarith
      show ?thesis
      proof (cases "quotedRune isSpace isPrint (byte (s ! i))")
        case yes: True
        then have ct: "s ! i \<noteq> CHR 0x5C \<and> (s ! i = CHR '' '' \<or> s ! i = CHR ''='' \<or> \<not> safeSet ! byte (s ! i))"
          using q by blast
        have "needsQuoting_loop isSpace isPrint s i"
          by (subst needsQuoting_loop.simps) (simp only: Let_def True ascii ct if_True simp_thms)
        then show ?thesis using yes da by simp
      next
        case nq: False
        then have cf: "\<not> (s ! i \<noteq> CHR 0x5C \<and> (s ! i = CHR '' '' \<or> s ! i = CHR ''='' \<or> \<not> safeSet ! byte (s ! i)))"
          using q by blast
        have "needsQuoting_loop isSpace isPrint s i = needsQuoting_loop isSpace isPrint s (i + 1)"
          by (subst needsQuoting_loop.simps) (simp only: Let_def True ascii cf if_True if_False)
        also have "\<dots> = (\<exists>x \<in> set (decodeAll (drop (i + 1) s)). quotedRune isSpace isPrint (fst x))"
          using "1.IH"(1) [OF True refl ascii cf] True by simp
        finally show ?thesis using nq da by simp
      qed
    next
      case multi: False
      define c where "c = fst (decodeRuneInString (drop i s))"
      define n where "n = snd (decodeRuneInString (drop i s))"
      have dec: "decodeRuneInString (s ! i # drop (Suc i) s) = (c, n)" by (simp add: c_def n_def d)
      have n: "0 < n" "i + n \<le> length s"
        using decode_size [of "drop i s"] True by (auto simp add: n_def)
      have ge: "128 \<le> c"
        using decode_rune_ge [of "s ! i" "drop (Suc i) s"] multi dec by (simp add: RuneSelf_def)
      have da: "decodeAll (drop i s) = (c, n) # decodeAll (drop (i + n) s)"
        using decodeAll_Cons [OF dec] by (simp add: d [symmetric] add.commute)
      have q: "(c = RuneError \<or> isSpace c \<or> \<not> isPrint c) = quotedRune isSpace isPrint c"
        using ge by (simp add: quotedRune_def)
      show ?thesis
      proof (cases "quotedRune isSpace isPrint c")
        case yes: True
        then have ct: "c = RuneError \<or> isSpace c \<or> \<not> isPrint c" using q by simp
        have "needsQuoting_loop isSpace isPrint s i"
          by (subst needsQuoting_loop.simps)
            (simp only: Let_def True multi c_def [symmetric] n_def [symmetric] ct if_True if_False)
        then show ?thesis using yes da by simp
      next
        case nq: False
        then have cf: "\<not> (c = RuneError \<or> isSpace c \<or> \<not> isPrint c)" using q by simp
        have "needsQuoting_loop isSpace isPrint s i = needsQuoting_loop isSpace isPrint s (i + n)"
          by (subst needsQuoting_loop.simps)
            (simp only: Let_def True multi c_def [symmetric] n_def [symmetric] cf if_True if_False)
        also have "\<dots> = (\<exists>x \<in> set (decodeAll (drop (i + n) s)). quotedRune isSpace isPrint (fst x))"
          using "1.IH"(2) [OF True refl multi c_def n_def cf] n by simp
        finally show ?thesis using nq da by simp
      qed
    qed
  qed
qed


lemma needsQuoting_runes:
  "needsQuoting isSpace isPrint s
     = (s = [] \<or> (\<exists>x \<in> set (decodeAll s). quotedRune isSpace isPrint (fst x)))"
  using needsQuoting_loop_eq [of 0 s isSpace isPrint]
  by (auto simp add: needsQuoting_def decodeAll_Nil)

lemma decodeAll_a_quote: "decodeAll [CHR ''a'', CHR 0x22] = [(97, 1), (34, 1)]"
  using decodeAll_Cons [OF decode_ascii, of "CHR ''a''" "[CHR 0x22]"]
    decodeAll_Cons [OF decode_ascii, of "CHR 0x22" "[]"]
  by (simp add: byte_def decodeAll_Nil)

lemma decodeAll_DEL: "decodeAll [CHR 0x7F] = [(127, 1)]"
  using decodeAll_Cons [OF decode_ascii, of "CHR 0x7F" "[]"]
  by (simp add: byte_def decodeAll_Nil)

section \<open>Claims about the JSON escaping\<close>




text \<open>
  C10.  \<open>appendEscapedJSONString\<close> appends the rune-by-rune escaping, in which each byte
  at which decoding fails is the six characters backslash, \<open>ufffd\<close>; the escaped
  form of every string is valid UTF-8; and a string that is not valid UTF-8 is not what
  unescaping returns.
\<close>

theorem invalid_utf8_replaced:
  "appendEscapedJSONString buf s = buf @ escapeRunes s
   \<and> validString (appendEscapedJSONString [] s)
   \<and> (\<not> validString s \<longrightarrow> jsonUnescape (appendEscapedJSONString [] s) \<noteq> Some s)"
proof -
  have "\<not> validString s \<Longrightarrow> replaceInvalid s \<noteq> s"
    using replaceInvalid_length [of s] by auto
  then show ?thesis
    by (simp add: appendEscapedJSONString_eq roundtrip_general validString_escapeRunes)
qed

text \<open>C10 at the letter a followed by the byte 0xFF.\<close>

theorem invalid_utf8_replaced_witness:
  "\<not> validString [CHR ''a'', CHR 0xFF]
   \<and> appendEscapedJSONString [] [CHR ''a'', CHR 0xFF]
       = [CHR ''a'', CHR 0x5C, CHR ''u'', CHR ''f'', CHR ''f'', CHR ''f'', CHR ''d'']
   \<and> validString (appendEscapedJSONString [] [CHR ''a'', CHR 0xFF])
   \<and> jsonUnescape (appendEscapedJSONString [] [CHR ''a'', CHR 0xFF]) \<noteq> Some [CHR ''a'', CHR 0xFF]"
proof -
  have "\<not> validString [CHR 0xFF]"
    using validString_multi [OF decode_FF, of "[]"] by simp
  then have v: "\<not> validString [CHR ''a'', CHR 0xFF]"
    by (simp add: validString_ascii byte_def)
  have "escapeRunes [CHR 0xFF] = [CHR 0x5C, CHR ''u'', CHR ''f'', CHR ''f'', CHR ''f'', CHR ''d'']"
    using escapeRunes_multi [OF _ decode_FF, of "[]"] by (simp add: escapeRunes_Nil byte_def)
  then have e: "escapeRunes [CHR ''a'', CHR 0xFF]
      = [CHR ''a'', CHR 0x5C, CHR ''u'', CHR ''f'', CHR ''f'', CHR ''f'', CHR ''d'']"
    using safeSet_nth [of 97] by (simp add: escapeRunes_ascii escapeByte_def byte_def)
  note th = invalid_utf8_replaced [of "[]" "[CHR ''a'', CHR 0xFF]"]
  have "appendEscapedJSONString [] [CHR ''a'', CHR 0xFF]
      = [CHR ''a'', CHR 0x5C, CHR ''u'', CHR ''f'', CHR ''f'', CHR ''f'', CHR ''d'']"
    using th e by simp
  then show ?thesis using v th by blast
qed


section \<open>Claims about the quoting predicate\<close>

text \<open>
  C5, as amended.  \<open>needsQuoting\<close> is true exactly when the string is empty or one of its
  runes, as the decoding loop meets them, is: below 0x80, a control byte below 0x20, a
  space, a double quote or an equals sign (neither DEL nor the backslash); from 0x80 on,
  U+FFFD (an invalid sequence or an encoded U+FFFD), a space or a rune that is not
  printable.
\<close>

theorem needsQuoting_amended:
  "needsQuoting isSpace isPrint s \<longleftrightarrow>
     s = [] \<or>
     (\<exists>x \<in> set (decodeAll s).
        if fst x < 0x80 then fst x < 0x20 \<or> fst x = 0x20 \<or> fst x = 0x22 \<or> fst x = 0x3D
        else fst x = RuneError \<or> isSpace (fst x) \<or> \<not> isPrint (fst x))"
  using needsQuoting_runes [of isSpace isPrint s] by (simp add: quotedRune_def)

text \<open>The amended statement at the letter a followed by a double quote.\<close>

theorem needsQuoting_amended_witness:
  "decodeAll [CHR ''a'', CHR 0x22] = [(97, 1), (34, 1)]
   \<and> needsQuoting IsSpaceASCII IsPrintASCII [CHR ''a'', CHR 0x22]"
  using needsQuoting_amended [of IsSpaceASCII IsPrintASCII "[CHR ''a'', CHR 0x22]"]
    decodeAll_a_quote
  by simp

text \<open>
  C5 as stated fails at the string made of the byte DEL: it is an ASCII control byte, so
  the rule of the specification asks for quoting, and \<open>needsQuoting\<close> returns false.
\<close>

theorem needsQuoting_counterexample:
  "needsQuotingSpec IsSpaceASCII IsPrintASCII [CHR 0x7F]
   \<and> \<not> needsQuoting IsSpaceASCII IsPrintASCII [CHR 0x7F]"
  using needsQuoting_runes [of IsSpaceASCII IsPrintASCII "[CHR 0x7F]"] decodeAll_DEL
  by (simp add: needsQuotingSpec_def quotedRune_def byte_def)


end
